theory Spec2Isabelle
  imports Main "HOL-Library.Sublist" "HOL-Library.AList"
begin

section \<open>Overview\<close>

text \<open>
  A model of the reference resolution and traversal code of the SEBI circular indexer:
  \<^verbatim>\<open>KnowledgeGraphAnalyzer\<close> (\<^verbatim>\<open>analyze_circular_references.py\<close>),
  \<^verbatim>\<open>CircularKnowledgeGraph.add_circular\<close> and the self-reference filter of
  \<^verbatim>\<open>PDFCircularExtractor\<close> (\<^verbatim>\<open>circular_knowledge_graph.py\<close>), and
  \<^verbatim>\<open>CircularDatabase.search\<close> (\<^verbatim>\<open>circular_reference_extractor.py\<close>).

  Reading files, parsing PDF text and matching the regular expressions are outside the
  model: a function takes the values those steps produce. A Python dictionary is an
  association list in insertion order (\<^const>\<open>AList.update\<close> overwrites in place or
  appends, as assignment to a key does); a Python set that is only iterated is the list
  of its elements in iteration order; the sets and the level dictionary of the traversal
  are a HOL set and a map. A dictionary subscript whose key may be missing returns
  \<open>Inl (KeyError k)\<close>.
\<close>

section \<open>Python strings\<close>

text \<open>
  Identifiers are modelled as ASCII strings (\<^typ>\<open>string\<close>). \<open>upper\<close> is
  \<^verbatim>\<open>str.upper()\<close> on ASCII text: the letters a-z are mapped to A-Z and every other
  character is left as it is.
\<close>

definition ascii_lowercase :: string where
  "ascii_lowercase = ''abcdefghijklmnopqrstuvwxyz''"

definition ascii_uppercase :: string where
  "ascii_uppercase = ''ABCDEFGHIJKLMNOPQRSTUVWXYZ''"

definition digits :: string where
  "digits = ''0123456789''"

definition upper_char :: "char \<Rightarrow> char" where
  "upper_char c =
     (case map_of (zip ascii_lowercase ascii_uppercase) c of None \<Rightarrow> c | Some u \<Rightarrow> u)"

definition upper :: "string \<Rightarrow> string" where
  "upper s = map upper_char s"

text \<open>\<^verbatim>\<open>s.replace(' ', '')\<close>\<close>

definition replace_spaces :: "string \<Rightarrow> string" where
  "replace_spaces s = filter (\<lambda>c. c \<noteq> CHR '' '') s"

text \<open>
  \<^verbatim>\<open>s.strip()\<close>: the ASCII characters for which \<^verbatim>\<open>str.isspace\<close> holds are
  the code points 9-13, 28-31 and 32.
\<close>

definition isspace :: "char \<Rightarrow> bool" where
  "isspace c = (let n = (of_char c :: nat) in (9 \<le> n \<and> n \<le> 13) \<or> (28 \<le> n \<and> n \<le> 32))"

definition strip :: "string \<Rightarrow> string" where
  "strip s = rev (dropWhile isspace (rev (dropWhile isspace s)))"

text \<open>\<^verbatim>\<open>s.split(c)[0]\<close>: the part of \<open>s\<close> before the first occurrence of \<open>c\<close>.\<close>

definition split_first :: "char \<Rightarrow> string \<Rightarrow> string" where
  "split_first c s = takeWhile (\<lambda>x. x \<noteq> c) s"

text \<open>\<^verbatim>\<open>a in b\<close> on strings: \<open>a\<close> occurs in \<open>b\<close> as a contiguous substring.\<close>

abbreviation str_in :: "string \<Rightarrow> string \<Rightarrow> bool" where
  "str_in a b \<equiv> sublist a b"

section \<open>Identifier normalization and the self-reference filter\<close>

text \<open>
  The reference definition of normalization in the specification (section 4.1): drop every
  character that is not an ASCII letter or digit, then upper-case the rest.
\<close>

definition isalnum :: "char \<Rightarrow> bool" where
  "isalnum c = (c \<in> set (ascii_lowercase @ ascii_uppercase @ digits))"

definition normalize_spec :: "string \<Rightarrow> string" where
  "normalize_spec raw = upper (filter isalnum raw)"

text \<open>
  \<^verbatim>\<open>normalize_circular_no\<close> (and \<^verbatim>\<open>normalize\<close>) of the files under
  \<^verbatim>\<open>scripts/\<close>: \<^verbatim>\<open>re.sub(r'[^A-Z0-9]', '', circ_no.upper())\<close>, and the empty
  string for an empty argument.
\<close>

definition normalize_circular_no :: "string \<Rightarrow> string" where
  "normalize_circular_no circ_no =
     (if circ_no = [] then []
      else filter (\<lambda>c. c \<in> set (ascii_uppercase @ digits)) (upper circ_no))"

text \<open>
  The end of \<^verbatim>\<open>PDFCircularExtractor.extract_circular_references\<close> in
  \<^verbatim>\<open>circular_knowledge_graph.py\<close> and \<^verbatim>\<open>analyze_circular_references.py\<close>:
  the references found by the patterns are filtered against the document's own
  \<^verbatim>\<open>circular_number\<close>. The set of references is the list of its elements in
  iteration order.
\<close>

definition filter_self_references :: "string \<Rightarrow> string list \<Rightarrow> string list" where
  "filter_self_references circular_number refs =
     (let current_circ_short =
            (if circular_number \<noteq> []
             then strip (split_first CHR ''-'' (split_first CHR ''('' circular_number))
             else [])
      in filter (\<lambda>ref. \<not> (current_circ_short \<noteq> [] \<and>
                            (str_in current_circ_short ref \<or> str_in ref current_circ_short)))
                refs)"

text \<open>The same filter as \<^verbatim>\<open>main\<close> of \<^verbatim>\<open>circular_reference_extractor.py\<close> has it.\<close>

definition main_filter_self_references :: "string \<Rightarrow> string list \<Rightarrow> string list" where
  "main_filter_self_references current_circular all_references =
     (let short1 = (if CHR ''('' \<in> set current_circular
                    then split_first CHR ''('' current_circular else current_circular);
          current_circ_short = (if CHR ''-'' \<in> set short1
                                then strip (split_first CHR ''-'' short1) else short1)
      in filter (\<lambda>ref. \<not> (str_in current_circ_short ref \<or> str_in ref current_circ_short))
                all_references)"

text \<open>
  The filter of the files under \<^verbatim>\<open>scripts/\<close>, commented there as
  ``Skip only if it's an exact match (same circular number)''.
\<close>

definition filter_self_references_exact :: "string \<Rightarrow> string list \<Rightarrow> string list" where
  "filter_self_references_exact circular_number refs =
     (let current_circ_normalized = normalize_circular_no circular_number
      in filter (\<lambda>ref. \<not> (current_circ_normalized \<noteq> [] \<and>
                            current_circ_normalized = normalize_circular_no ref))
                refs)"

text \<open>
  \<^verbatim>\<open>CircularDatabase.search\<close>; a database entry is its title and its circular number.
\<close>

record circular_entry =
  title :: string
  entry_circular_no :: string

definition search :: "circular_entry list \<Rightarrow> string \<Rightarrow> circular_entry list" where
  "search circulars reference =
     (let ref_normalized = upper (replace_spaces (strip reference))
      in filter (\<lambda>circular.
                   let circ_no_normalized = upper (replace_spaces (entry_circular_no circular))
                   in str_in ref_normalized circ_no_normalized \<or>
                      str_in circ_no_normalized ref_normalized)
                circulars)"

section \<open>The knowledge graph\<close>

text \<open>
  A node is the dictionary that \<^verbatim>\<open>add_circular\<close> stores and \<^verbatim>\<open>export_to_json\<close>
  writes; its \<^verbatim>\<open>id\<close> is the key it is stored under. The analyzer reads
  \<^verbatim>\<open>circular_no\<close> and \<^verbatim>\<open>references\<close> with \<^verbatim>\<open>.get\<close>, so a loaded node
  may lack them (\<open>None\<close>).
\<close>

record node =
  filename :: string
  circular_no :: "string option"
  references :: "string list option"
  reference_count :: nat

record edge =
  source :: string
  source_circular_no :: string
  target_reference :: string

text \<open>
  \<^verbatim>\<open>CircularKnowledgeGraph\<close>: the node dictionary (in insertion order) and the edge
  list. The same shape is the exported JSON snapshot, whose node list may repeat an id.
\<close>

record graph =
  nodes :: "(string \<times> node) list"
  edges :: "edge list"

text \<open>\<^verbatim>\<open>node.get('circular_no', '')\<close> and \<^verbatim>\<open>node.get('references', [])\<close>\<close>

definition get_circular_no :: "node \<Rightarrow> string" where
  "get_circular_no n = (case circular_no n of None \<Rightarrow> [] | Some c \<Rightarrow> c)"

definition get_references :: "node \<Rightarrow> string list" where
  "get_references n = (case references n of None \<Rightarrow> [] | Some rs \<Rightarrow> rs)"

subsection \<open>CircularKnowledgeGraph.add_circular\<close>

text \<open>
  The set \<open>references\<close> is given as the list of its elements in iteration order
  (no repetitions). The node is stored under \<open>filename\<close>, replacing an earlier one; one
  edge per reference is appended to the edge list.
\<close>

definition add_circular :: "graph \<Rightarrow> string \<Rightarrow> string \<Rightarrow> string list \<Rightarrow> graph" where
  "add_circular g fname circ_no refs =
     (let node_id = fname in
      g\<lparr>nodes := AList.update node_id
                   \<lparr>filename = fname, circular_no = Some circ_no,
                    references = Some refs, reference_count = length refs\<rparr> (nodes g),
        edges := edges g @
                 map (\<lambda>ref. \<lparr>source = node_id, source_circular_no = circ_no,
                              target_reference = ref\<rparr>) refs\<rparr>)"

definition empty_graph :: graph where
  "empty_graph = \<lparr>nodes = [], edges = []\<rparr>"

subsection \<open>KnowledgeGraphAnalyzer\<close>

record analyzer = graph +
  reference_map :: "(string \<times> string list) list"
  circular_to_node :: "(string \<times> string) list"

datatype py_error = KeyError string

text \<open>Reading a \<^verbatim>\<open>defaultdict(list)\<close> entry that is about to be appended to.\<close>

definition default_get :: "(string \<times> string list) list \<Rightarrow> string \<Rightarrow> string list" where
  "default_get m k = (case map_of m k of None \<Rightarrow> [] | Some v \<Rightarrow> v)"

definition load_nodes :: "(string \<times> node) list \<Rightarrow> (string \<times> node) list" where
  "load_nodes ns = fold (\<lambda>(i, n) d. AList.update i n d) ns []"

definition load_reference_map :: "edge list \<Rightarrow> (string \<times> string list) list" where
  "load_reference_map es =
     fold (\<lambda>e m. AList.update (target_reference e)
                    (default_get m (target_reference e) @ [source e]) m) es []"

definition circular_to_node_step ::
  "string \<times> node \<Rightarrow> (string \<times> string) list \<Rightarrow> (string \<times> string) list"
where
  "circular_to_node_step = (\<lambda>(node_id, n) m.
     let circ_no = get_circular_no n
     in if circ_no \<noteq> [] then AList.update circ_no node_id m else m)"

definition load_circular_to_node :: "(string \<times> node) list \<Rightarrow> (string \<times> string) list" where
  "load_circular_to_node ns = fold circular_to_node_step ns []"

text \<open>\<^verbatim>\<open>load_graph\<close>, from the parsed JSON snapshot.\<close>

definition load_graph :: "graph \<Rightarrow> analyzer" where
  "load_graph data =
     (let ns = load_nodes (nodes data)
      in \<lparr>nodes = ns, edges = edges data,
          reference_map = load_reference_map (edges data),
          circular_to_node = load_circular_to_node ns\<rparr>)"

text \<open>\<^verbatim>\<open>_fuzzy_match_reference\<close>\<close>

definition fuzzy_match_reference :: "analyzer \<Rightarrow> string \<Rightarrow> string list" where
  "fuzzy_match_reference an ref =
     (let ref_normalized = upper (replace_spaces ref)
      in map fst
           (filter (\<lambda>(node_id, n).
                      let circ_no = upper (replace_spaces (get_circular_no n))
                      in str_in ref_normalized circ_no \<or> str_in circ_no ref_normalized)
                   (nodes an)))"

text \<open>
  One entry of the dictionary returned by \<^verbatim>\<open>find_direct_references\<close>, by its
  \<^verbatim>\<open>type\<close>: \<^verbatim>\<open>in_graph\<close> (node id, node, references), \<^verbatim>\<open>referenced_external\<close>
  (referenced_by), \<^verbatim>\<open>fuzzy_match\<close> (matches) and \<^verbatim>\<open>external\<close>. The
  \<^verbatim>\<open>message\<close> strings are display text and are left out.
\<close>

datatype details =
    In_graph string node "string list"
  | Referenced_external "string list"
  | Fuzzy_match "string list"
  | External

fun details_references :: "details \<Rightarrow> string list" where
  "details_references (In_graph node_id n refs) = refs"
| "details_references (Referenced_external srcs) = []"
| "details_references (Fuzzy_match ms) = []"
| "details_references External = []"

text \<open>The body of the loop of \<^verbatim>\<open>find_direct_references\<close>, for one reference.\<close>

definition resolve_reference :: "analyzer \<Rightarrow> string \<Rightarrow> py_error + details" where
  "resolve_reference an ref =
     (case map_of (nodes an) ref of
        Some n \<Rightarrow> Inr (In_graph ref n (get_references n))
      | None \<Rightarrow>
          (case map_of (circular_to_node an) ref of
             Some node_id \<Rightarrow>
               (case map_of (nodes an) node_id of
                  None \<Rightarrow> Inl (KeyError node_id)
                | Some n \<Rightarrow> Inr (In_graph node_id n (get_references n)))
           | None \<Rightarrow>
               (case map_of (reference_map an) ref of
                  Some srcs \<Rightarrow> Inr (Referenced_external srcs)
                | None \<Rightarrow>
                    (let matches = fuzzy_match_reference an ref
                     in if matches \<noteq> [] then Inr (Fuzzy_match matches) else Inr External))))"

fun find_direct_references_loop ::
  "analyzer \<Rightarrow> string list \<Rightarrow> (string \<times> details) list \<Rightarrow> py_error + (string \<times> details) list"
where
  "find_direct_references_loop an [] direct_refs = Inr direct_refs"
| "find_direct_references_loop an (ref # rest) direct_refs =
     (case resolve_reference an ref of
        Inl e \<Rightarrow> Inl e
      | Inr d \<Rightarrow> find_direct_references_loop an rest (AList.update ref d direct_refs))"

definition find_direct_references ::
  "analyzer \<Rightarrow> string list \<Rightarrow> py_error + (string \<times> details) list"
where
  "find_direct_references an circular_references =
     find_direct_references_loop an circular_references []"

subsection \<open>find_indirect_references\<close>

text \<open>
  The three variables of the traversal: \<^verbatim>\<open>indirect_by_level\<close> (a
  \<^verbatim>\<open>defaultdict(set)\<close>: a level is a key once something was added to it),
  \<^verbatim>\<open>visited\<close> and \<^verbatim>\<open>queue\<close>.
\<close>

record bfs_state =
  indirect_by_level :: "int \<rightharpoonup> string set"
  visited :: "string set"
  queue :: "(string \<times> int) list"

definition level_set :: "(int \<rightharpoonup> string set) \<Rightarrow> int \<Rightarrow> string set" where
  "level_set m l = (case m l of None \<Rightarrow> {} | Some s \<Rightarrow> s)"

text \<open>
  The body shared by both inner loops: a reference that is not yet visited is added to
  its level, marked visited and enqueued.
\<close>

definition add_ref :: "int \<Rightarrow> string \<Rightarrow> bfs_state \<Rightarrow> bfs_state" where
  "add_ref lvl ref s =
     (if ref \<notin> visited s
      then s\<lparr>indirect_by_level :=
                (indirect_by_level s)(lvl \<mapsto> insert ref (level_set (indirect_by_level s) lvl)),
             visited := insert ref (visited s),
             queue := queue s @ [(ref, lvl)]\<rparr>
      else s)"

definition initial_state :: bfs_state where
  "initial_state = \<lparr>indirect_by_level = Map.empty, visited = {}, queue = []\<rparr>"

text \<open>The first loop, over \<^verbatim>\<open>direct_refs.items()\<close> in dictionary order.\<close>

definition seed_step :: "string \<times> details \<Rightarrow> bfs_state \<Rightarrow> bfs_state" where
  "seed_step = (\<lambda>(ref, d) s.
     let s1 = s\<lparr>visited := insert ref (visited s)\<rparr>
     in if details_references d \<noteq> [] then fold (add_ref 2) (details_references d) s1 else s1)"

definition seed :: "(string \<times> details) list \<Rightarrow> bfs_state" where
  "seed direct_refs = fold seed_step direct_refs initial_state"

text \<open>
  The node id found for a dequeued reference: the reference itself when it is a node id,
  else its entry in \<^verbatim>\<open>circular_to_node\<close>, else \<^verbatim>\<open>None\<close>.
\<close>

definition lookup_node_id :: "analyzer \<Rightarrow> string \<Rightarrow> string option" where
  "lookup_node_id an current_ref =
     (if current_ref \<in> fst ` set (nodes an) then Some current_ref
      else map_of (circular_to_node an) current_ref)"

text \<open>
  The body of the \<^verbatim>\<open>while\<close> loop after \<^verbatim>\<open>popleft\<close>; \<open>s1\<close> is the
  state with the item removed. \<^verbatim>\<open>if node_id:\<close> is false for \<^verbatim>\<open>None\<close> and for
  the empty string.
\<close>

definition bfs_body :: "analyzer \<Rightarrow> int \<Rightarrow> string \<Rightarrow> int \<Rightarrow> bfs_state \<Rightarrow> py_error + bfs_state" where
  "bfs_body an max_depth current_ref level s1 =
     (if level \<ge> max_depth then Inr s1
      else (case lookup_node_id an current_ref of
              None \<Rightarrow> Inr s1
            | Some node_id \<Rightarrow>
                if node_id = [] then Inr s1
                else (case map_of (nodes an) node_id of
                        None \<Rightarrow> Inl (KeyError node_id)
                      | Some n \<Rightarrow> Inr (fold (add_ref (level + 1)) (get_references n) s1))))"

text \<open>One iteration of the \<^verbatim>\<open>while queue:\<close> loop, as a relation on states.\<close>

definition bfs_iteration :: "analyzer \<Rightarrow> int \<Rightarrow> (bfs_state \<times> bfs_state) set" where
  "bfs_iteration an max_depth =
     {(s', s). \<exists>current_ref level rest.
        queue s = (current_ref, level) # rest \<and>
        bfs_body an max_depth current_ref level (s\<lparr>queue := rest\<rparr>) = Inr s'}"

text \<open>Every reference string stored in the graph, and the measure of the traversal.\<close>

definition stored_references :: "analyzer \<Rightarrow> string set" where
  "stored_references an = (\<Union>(i, n) \<in> set (nodes an). set (get_references n))"

definition bfs_measure :: "analyzer \<Rightarrow> bfs_state \<Rightarrow> nat" where
  "bfs_measure an s = card (stored_references an - visited s)"

lemma finite_stored_references: "finite (stored_references an)"
  by (auto simp: stored_references_def)

lemma get_references_subset:
  "map_of (nodes an) i = Some n \<Longrightarrow> set (get_references n) \<subseteq> stored_references an"
  by (auto simp: stored_references_def dest: map_of_SomeD)

lemma visited_add_ref: "visited (add_ref l r s) = insert r (visited s)"
  by (auto simp: add_ref_def)

lemma visited_fold_add_ref: "visited (fold (add_ref l) rs s) = visited s \<union> set rs"
  by (induction rs arbitrary: s) (auto simp: visited_add_ref)

lemma fold_add_ref_same: "set rs \<subseteq> visited s \<Longrightarrow> fold (add_ref l) rs s = s"
  by (induction rs arbitrary: s) (auto simp: add_ref_def)

lemma fold_add_ref_measure:
  assumes "set rs \<subseteq> stored_references an"
  shows "fold (add_ref l) rs s = s \<or>
         bfs_measure an (fold (add_ref l) rs s) < bfs_measure an s"
proof (cases "set rs \<subseteq> visited s")
  case True
  then show ?thesis by (simp add: fold_add_ref_same)
next
  case False
  then obtain r where r: "r \<in> set rs" "r \<notin> visited s" by auto
  have "stored_references an - (visited s \<union> set rs) \<subset> stored_references an - visited s"
    using r assms by auto
  then have "card (stored_references an - (visited s \<union> set rs))
               < card (stored_references an - visited s)"
    by (intro psubset_card_mono) (auto simp: finite_stored_references)
  then show ?thesis by (simp add: bfs_measure_def visited_fold_add_ref)
qed

lemma bfs_body_decreases:
  assumes "queue s = (current_ref, level) # rest"
    and "bfs_body an md current_ref level (s\<lparr>queue := rest\<rparr>) = Inr s'"
  shows "bfs_measure an s' < bfs_measure an s \<or>
         (bfs_measure an s' = bfs_measure an s \<and> length (queue s') < length (queue s))"
proof -
  let ?s1 = "s\<lparr>queue := rest\<rparr>"
  have s1: "bfs_measure an ?s1 = bfs_measure an s" "length (queue ?s1) < length (queue s)"
    by (simp_all add: bfs_measure_def assms(1))
  consider (pop) "s' = ?s1"
    | (expand) n i where "map_of (nodes an) i = Some n"
        "s' = fold (add_ref (level + 1)) (get_references n) ?s1"
    using assms(2)
    by (auto simp: bfs_body_def split: if_splits option.splits)
  then show ?thesis
  proof cases
    case pop
    then show ?thesis using s1 by simp
  next
    case expand
    from fold_add_ref_measure[OF get_references_subset[OF expand(1)], of "level + 1" ?s1]
    show ?thesis using s1 expand(2) by auto
  qed
qed

text \<open>The \<^verbatim>\<open>while queue:\<close> loop.\<close>

function bfs_loop :: "analyzer \<Rightarrow> int \<Rightarrow> bfs_state \<Rightarrow> py_error + bfs_state" where
  "bfs_loop an max_depth s =
     (case queue s of
        [] \<Rightarrow> Inr s
      | (current_ref, level) # rest \<Rightarrow>
          (case bfs_body an max_depth current_ref level (s\<lparr>queue := rest\<rparr>) of
             Inl e \<Rightarrow> Inl e
           | Inr s' \<Rightarrow> bfs_loop an max_depth s'))"
  by pat_completeness auto
termination
proof (relation "measures [\<lambda>(an, md, s). bfs_measure an s, \<lambda>(an, md, s). length (queue s)]")
  show "wf (measures [\<lambda>(an, md, s). bfs_measure an s, \<lambda>(an, md, s). length (queue s)])"
    by simp
next
  fix an max_depth s x21 x22 current_ref level s'
  assume "queue s = x21 # x22" "(current_ref, level) = x21"
    "bfs_body an max_depth current_ref level (s\<lparr>queue := x22\<rparr>) = Inr s'"
  then show "((an, max_depth, s'), an, max_depth, s)
       \<in> measures [\<lambda>(an, md, s). bfs_measure an s, \<lambda>(an, md, s). length (queue s)]"
    using bfs_body_decreases[of s current_ref level x22 an max_depth s'] by auto
qed

definition find_indirect_references ::
  "analyzer \<Rightarrow> (string \<times> details) list \<Rightarrow> int \<Rightarrow> py_error + (int \<rightharpoonup> string set)"
where
  "find_indirect_references an direct_refs max_depth =
     (case bfs_loop an max_depth (seed direct_refs) of
        Inl e \<Rightarrow> Inl e
      | Inr s \<Rightarrow> Inr (indirect_by_level s))"

section \<open>Predicates and example graphs used in the properties\<close>

text \<open>The number of edges of \<open>g\<close> from node \<open>node_id\<close> to the reference \<open>ref\<close>.\<close>

definition edge_count :: "graph \<Rightarrow> string \<Rightarrow> string \<Rightarrow> nat" where
  "edge_count g node_id ref =
     length (filter (\<lambda>e. source e = node_id \<and> target_reference e = ref) (edges g))"

text \<open>No string belongs to two different levels.\<close>

definition levels_disjoint :: "(int \<rightharpoonup> string set) \<Rightarrow> bool" where
  "levels_disjoint m = (\<forall>l l' x. x \<in> level_set m l \<longrightarrow> x \<in> level_set m l' \<longrightarrow> l = l')"

text \<open>Invariants of the traversal.\<close>

definition levels_inv :: "bfs_state \<Rightarrow> bool" where
  "levels_inv s =
     ((\<forall>l x. x \<in> level_set (indirect_by_level s) l \<longrightarrow> x \<in> visited s) \<and>
      levels_disjoint (indirect_by_level s))"

definition seeding_inv :: "bfs_state \<Rightarrow> bool" where
  "seeding_inv s =
     ((\<forall>l x. x \<in> level_set (indirect_by_level s) l \<longrightarrow> l = 2) \<and>
      (\<forall>(x, l) \<in> set (queue s). l = 2))"

definition traversal_inv :: "string set \<Rightarrow> bfs_state \<Rightarrow> bool" where
  "traversal_inv K s =
     (K \<subseteq> visited s \<and>
      (\<forall>l x. 3 \<le> l \<longrightarrow> x \<in> level_set (indirect_by_level s) l \<longrightarrow> x \<notin> K) \<and>
      (\<forall>(x, l) \<in> set (queue s). 2 \<le> l))"

definition depth_inv :: "int \<Rightarrow> bfs_state \<Rightarrow> bool" where
  "depth_inv md s =
     ((\<forall>l x. x \<in> level_set (indirect_by_level s) l \<longrightarrow> 2 \<le> l \<and> l \<le> md) \<and>
      (\<forall>(x, l) \<in> set (queue s). 2 \<le> l \<and> l \<le> md))"

text \<open>Every string put into a level is a member of \<open>S\<close>.\<close>

definition raw_inv :: "string set \<Rightarrow> bfs_state \<Rightarrow> bool" where
  "raw_inv S s = (\<forall>l x. x \<in> level_set (indirect_by_level s) l \<longrightarrow> x \<in> S)"

text \<open>The reference strings carried by the entries of a direct-reference map.\<close>

definition cited_references :: "(string \<times> details) list \<Rightarrow> string set" where
  "cited_references direct_refs = (\<Union>(ref, d) \<in> set direct_refs. set (details_references d))"

text \<open>
  Every node has exactly one edge per reference and none to anything else, and every edge
  starts at a node.
\<close>

definition edges_match_nodes :: "graph \<Rightarrow> bool" where
  "edges_match_nodes g =
     ((\<forall>(i, n) \<in> set (nodes g). \<forall>ref.
         edge_count g i ref = (if ref \<in> set (get_references n) then 1 else 0)) \<and>
      (\<forall>e \<in> set (edges g). source e \<in> fst ` set (nodes g)))"

text \<open>
  Two documents citing each other: \<^verbatim>\<open>x.pdf\<close> is circular X and cites Y,
  \<^verbatim>\<open>y.pdf\<close> is circular Y and cites X.
\<close>

definition cycle_graph :: graph where
  "cycle_graph =
     add_circular (add_circular empty_graph ''x.pdf'' ''X'' [''Y'']) ''y.pdf'' ''Y'' [''X'']"

definition node_x :: node where
  "node_x = \<lparr>filename = ''x.pdf'', circular_no = Some ''X'',
             references = Some [''Y''], reference_count = 1\<rparr>"

definition node_y :: node where
  "node_y = \<lparr>filename = ''y.pdf'', circular_no = Some ''Y'',
             references = Some [''X''], reference_count = 1\<rparr>"

text \<open>A graph of two documents and one reference (C/3) to a document outside it.\<close>

definition sample_graph :: graph where
  "sample_graph =
     add_circular (add_circular empty_graph ''a.pdf'' ''A/1'' [''B/2'', ''C/3''])
       ''b.pdf'' ''B/2'' [''A/1'']"

definition node_a :: node where
  "node_a = \<lparr>filename = ''a.pdf'', circular_no = Some ''A/1'',
             references = Some [''B/2'', ''C/3''], reference_count = 2\<rparr>"

definition node_b :: node where
  "node_b = \<lparr>filename = ''b.pdf'', circular_no = Some ''B/2'',
             references = Some [''A/1''], reference_count = 1\<rparr>"

text \<open>
  A graph in which one document is cited under two spellings, \<^verbatim>\<open>X 1\<close> and
  \<^verbatim>\<open>X1\<close>.
\<close>

definition spelling_graph :: graph where
  "spelling_graph =
     add_circular (add_circular empty_graph ''a.pdf'' ''A/1'' [''B/2'', ''X 1''])
       ''b.pdf'' ''B/2'' [''X1'']"

definition node_a2 :: node where
  "node_a2 = \<lparr>filename = ''a.pdf'', circular_no = Some ''A/1'',
              references = Some [''B/2'', ''X 1''], reference_count = 2\<rparr>"

definition node_b2 :: node where
  "node_b2 = \<lparr>filename = ''b.pdf'', circular_no = Some ''B/2'',
              references = Some [''X1''], reference_count = 1\<rparr>"

text \<open>Scenario B of the specification: one node whose circular number is written with spaces.\<close>

definition spaced_graph :: graph where
  "spaced_graph = add_circular empty_graph ''n.pdf'' ''SEBI HO ABC 2024 5'' []"

text \<open>One node whose circular number is written with hyphens.\<close>

definition hyphen_graph :: graph where
  "hyphen_graph = add_circular empty_graph ''n.pdf'' ''SEBI-HO-1'' []"

text \<open>A snapshot in which the first node has no \<^verbatim>\<open>circular_no\<close> key.\<close>

definition unnamed_graph :: graph where
  "unnamed_graph =
     \<lparr>nodes = [(''u.pdf'', \<lparr>filename = ''u.pdf'', circular_no = None,
                            references = Some [], reference_count = 0\<rparr>),
               (''b.pdf'', node_b)],
      edges = []\<rparr>"

section \<open>Auxiliary facts\<close>

subsection \<open>Evaluating strings\<close>

lemmas string_eval =
  upper_def upper_char_def ascii_lowercase_def ascii_uppercase_def digits_def
  replace_spaces_def sublist_code isalnum_def strip_def split_first_def isspace_def

lemmas load_eval =
  add_circular_def empty_graph_def Let_def load_graph_def load_nodes_def
  load_reference_map_def load_circular_to_node_def circular_to_node_step_def
  default_get_def get_circular_no_def

lemma upper_char_alnum: "upper_char c \<in> set (ascii_uppercase @ digits) \<longleftrightarrow> isalnum c"
  unfolding isalnum_def upper_char_def ascii_lowercase_def ascii_uppercase_def digits_def
  by (cases "c \<in> set ''abcdefghijklmnopqrstuvwxyz''") auto

text \<open>
  On ASCII text the normalization of the files under \<^verbatim>\<open>scripts/\<close> is the
  reference definition of the specification.
\<close>

lemma normalize_circular_no_eq_spec: "normalize_circular_no s = normalize_spec s"
proof -
  have "filter (\<lambda>c. c \<in> set (ascii_uppercase @ digits)) (map upper_char s)
          = map upper_char (filter isalnum s)"
    by (simp only: filter_map comp_def upper_char_alnum)
  then show ?thesis
    by (simp add: normalize_circular_no_def normalize_spec_def upper_def)
qed

text \<open>
  The filter of the files under \<^verbatim>\<open>scripts/\<close> drops a reference exactly when its
  normalized form is the document's own (non-empty) normalized number.
\<close>

lemma filter_self_references_exact_iff:
  "ref \<in> set (filter_self_references_exact circular_number refs) \<longleftrightarrow>
     ref \<in> set refs \<and>
     \<not> (normalize_spec circular_number \<noteq> [] \<and>
        normalize_spec ref = normalize_spec circular_number)"
  by (auto simp: filter_self_references_exact_def Let_def normalize_circular_no_eq_spec)

subsection \<open>The indexes built by load_graph\<close>

lemma fold_update_keys:
  "fst ` set (fold (\<lambda>(i, n) d. AList.update i n d) ns d0) = fst ` set d0 \<union> fst ` set ns"
  by (induction ns arbitrary: d0) (auto simp: dom_update split: prod.splits)

lemma fold_update_distinct:
  "distinct (map fst d0) \<Longrightarrow> distinct (map fst (fold (\<lambda>(i, n) d. AList.update i n d) ns d0))"
  by (induction ns arbitrary: d0) (auto simp: distinct_update split: prod.splits)

lemma load_nodes_keys: "fst ` set (load_nodes ns) = fst ` set ns"
  by (simp add: load_nodes_def fold_update_keys)

lemma load_nodes_distinct: "distinct (map fst (load_nodes ns))"
  by (simp add: load_nodes_def fold_update_distinct)

lemma fold_circular_to_node_Some:
  "map_of (fold circular_to_node_step ns m) c = Some i \<Longrightarrow>
     map_of m c = Some i \<or> (c \<noteq> [] \<and> (\<exists>n. (i, n) \<in> set ns \<and> get_circular_no n = c))"
proof (induction ns arbitrary: m)
  case Nil
  then show ?case by simp
next
  case (Cons p ns)
  obtain j n where p: "p = (j, n)" by (cases p)
  from Cons.prems have "map_of (fold circular_to_node_step ns (circular_to_node_step p m)) c = Some i"
    by simp
  from Cons.IH[OF this] show ?case
    by (auto simp: p circular_to_node_step_def Let_def update_Some_unfold split: if_splits)
qed

lemma fold_circular_to_node_keys:
  "c \<in> fst ` set m \<or> (c \<noteq> [] \<and> (\<exists>i n. (i, n) \<in> set ns \<and> get_circular_no n = c))
     \<Longrightarrow> c \<in> fst ` set (fold circular_to_node_step ns m)"
proof (induction ns arbitrary: m)
  case Nil
  then show ?case by simp
next
  case (Cons p ns)
  obtain j n where p: "p = (j, n)" by (cases p)
  have "c \<in> fst ` set (circular_to_node_step p m) \<or>
        (c \<noteq> [] \<and> (\<exists>i n. (i, n) \<in> set ns \<and> get_circular_no n = c))"
    using Cons.prems by (auto simp: p circular_to_node_step_def Let_def dom_update)
  from Cons.IH[OF this] show ?case by simp
qed

text \<open>Every entry of \<^verbatim>\<open>circular_to_node\<close> names a node that declares that number.\<close>

lemma circular_to_node_Some:
  assumes "map_of (circular_to_node (load_graph g)) c = Some i"
  shows "c \<noteq> [] \<and> (\<exists>n. map_of (nodes (load_graph g)) i = Some n \<and> get_circular_no n = c)"
proof -
  from assms have "map_of (fold circular_to_node_step (load_nodes (nodes g)) []) c = Some i"
    by (simp add: load_graph_def load_circular_to_node_def Let_def)
  from fold_circular_to_node_Some[OF this] obtain n where
    "c \<noteq> []" "(i, n) \<in> set (load_nodes (nodes g))" "get_circular_no n = c" by auto
  then show ?thesis
    using load_nodes_distinct[of "nodes g"] by (auto simp: load_graph_def Let_def)
qed

lemma circular_to_node_defined:
  assumes "map_of (nodes (load_graph g)) i = Some n" "get_circular_no n \<noteq> []"
  shows "\<exists>j. map_of (circular_to_node (load_graph g)) (get_circular_no n) = Some j"
proof -
  have "(i, n) \<in> set (load_nodes (nodes g))"
    using assms(1) by (auto simp: load_graph_def Let_def dest: map_of_SomeD)
  then have "get_circular_no n \<in> fst ` set (fold circular_to_node_step (load_nodes (nodes g)) [])"
    using assms(2) by (intro fold_circular_to_node_keys) auto
  then have "map_of (fold circular_to_node_step (load_nodes (nodes g)) []) (get_circular_no n) \<noteq> None"
    by (simp add: map_of_eq_None_iff)
  then show ?thesis
    by (auto simp: load_graph_def load_circular_to_node_def Let_def)
qed

subsection \<open>The resolver on a loaded graph\<close>

lemma resolve_reference_loaded: "\<exists>e. resolve_reference (load_graph g) ref = Inr e"
proof (cases "map_of (circular_to_node (load_graph g)) ref")
  case None
  then show ?thesis
    by (auto simp: resolve_reference_def Let_def split: option.splits)
next
  case (Some i)
  from circular_to_node_Some[OF this] obtain n where
    "map_of (nodes (load_graph g)) i = Some n" by auto
  then show ?thesis using Some
    by (auto simp: resolve_reference_def Let_def split: option.splits)
qed

lemma resolve_reference_cases:
  assumes "resolve_reference an c = Inr e"
  shows "(\<exists>n. e = In_graph c n (get_references n) \<and> map_of (nodes an) c = Some n) \<or>
         (\<exists>i n. e = In_graph i n (get_references n) \<and> map_of (nodes an) c = None \<and>
                 map_of (circular_to_node an) c = Some i \<and> map_of (nodes an) i = Some n) \<or>
         (\<exists>srcs. e = Referenced_external srcs \<and> map_of (nodes an) c = None \<and>
                 map_of (circular_to_node an) c = None \<and>
                 map_of (reference_map an) c = Some srcs) \<or>
         (\<exists>ms. e = Fuzzy_match ms \<and> ms \<noteq> [] \<and> ms = fuzzy_match_reference an c \<and>
                 map_of (nodes an) c = None \<and> map_of (circular_to_node an) c = None \<and>
                 map_of (reference_map an) c = None) \<or>
         (e = External \<and> fuzzy_match_reference an c = [] \<and>
                 map_of (nodes an) c = None \<and> map_of (circular_to_node an) c = None \<and>
                 map_of (reference_map an) c = None)"
  using assms
  by (auto simp: resolve_reference_def Let_def split: option.splits if_splits)

lemma find_direct_references_loop_result:
  assumes "\<And>c. c \<in> set cs \<Longrightarrow> \<exists>e. resolve_reference an c = Inr e"
  shows "\<exists>d. find_direct_references_loop an cs d0 = Inr d \<and>
             fst ` set d = fst ` set d0 \<union> set cs \<and>
             (distinct (map fst d0) \<longrightarrow> distinct (map fst d)) \<and>
             (\<forall>c. map_of d c =
                   (if c \<in> set cs
                    then (case resolve_reference an c of Inr e \<Rightarrow> Some e | Inl x \<Rightarrow> None)
                    else map_of d0 c))"
  using assms
proof (induction cs arbitrary: d0)
  case Nil
  then show ?case by simp
next
  case (Cons c cs)
  obtain e where e: "resolve_reference an c = Inr e" using Cons.prems by auto
  have "\<And>c'. c' \<in> set cs \<Longrightarrow> \<exists>e. resolve_reference an c' = Inr e"
    using Cons.prems by auto
  from Cons.IH[OF this, of "AList.update c e d0"]
  obtain d where d: "find_direct_references_loop an cs (AList.update c e d0) = Inr d"
    "fst ` set d = fst ` set (AList.update c e d0) \<union> set cs"
    "distinct (map fst (AList.update c e d0)) \<longrightarrow> distinct (map fst d)"
    "\<forall>c'. map_of d c' =
        (if c' \<in> set cs
         then (case resolve_reference an c' of Inr e \<Rightarrow> Some e | Inl x \<Rightarrow> None)
         else map_of (AList.update c e d0) c')"
    by blast
  show ?case
  proof (intro exI[of _ d] conjI allI)
    show "find_direct_references_loop an (c # cs) d0 = Inr d" using d(1) e by simp
    show "fst ` set d = fst ` set d0 \<union> set (c # cs)" using d(2) by (auto simp: dom_update)
    show "distinct (map fst d0) \<longrightarrow> distinct (map fst d)"
      using d(3) by (simp add: distinct_update)
    show "map_of d c' =
        (if c' \<in> set (c # cs)
         then (case resolve_reference an c' of Inr e \<Rightarrow> Some e | Inl x \<Rightarrow> None)
         else map_of d0 c')" for c'
      using d(4) e by (auto simp: update_conv')
  qed
qed

lemma find_direct_references_loaded:
  "\<exists>d. find_direct_references (load_graph g) cs = Inr d \<and>
       distinct (map fst d) \<and> set (map fst d) = set cs \<and>
       (\<forall>c \<in> set cs. \<exists>e. map_of d c = Some e \<and> resolve_reference (load_graph g) c = Inr e)"
proof -
  from find_direct_references_loop_result[of cs "load_graph g" "[]"] resolve_reference_loaded
  obtain d where d: "find_direct_references_loop (load_graph g) cs [] = Inr d"
    "fst ` set d = set cs" "distinct (map fst d)"
    "\<forall>c. map_of d c =
        (if c \<in> set cs
         then (case resolve_reference (load_graph g) c of Inr e \<Rightarrow> Some e | Inl x \<Rightarrow> None)
         else None)"
    by auto
  have "\<exists>e. map_of d c = Some e \<and> resolve_reference (load_graph g) c = Inr e"
    if "c \<in> set cs" for c
  proof -
    obtain e where "resolve_reference (load_graph g) c = Inr e"
      using resolve_reference_loaded by blast
    then show ?thesis using d(4) that by auto
  qed
  then show ?thesis using d(1-3) by (auto simp: find_direct_references_def)
qed

subsection \<open>add_circular on a new document id\<close>

lemma update_fresh: "k \<notin> fst ` set al \<Longrightarrow> AList.update k v al = al @ [(k, v)]"
  by (induction al) auto

lemma count_new_edges:
  "length (filter (\<lambda>e. source e = i \<and> target_reference e = ref)
     (map (\<lambda>r. \<lparr>source = fname, source_circular_no = c, target_reference = r\<rparr>) refs))
   = (if i = fname then count_list refs ref else 0)"
  by (induction refs) auto

lemma count_list_distinct: "distinct xs \<Longrightarrow> count_list xs x = (if x \<in> set xs then 1 else 0)"
  by (induction xs) auto

lemma no_edges_from_fresh:
  assumes "\<forall>e \<in> set (edges g). source e \<in> fst ` set (nodes g)" "fname \<notin> fst ` set (nodes g)"
  shows "edge_count g fname ref = 0"
  using assms by (auto simp: edge_count_def filter_empty_conv)

lemma empty_graph_edges_match: "edges_match_nodes empty_graph"
  by (simp add: edges_match_nodes_def empty_graph_def)

text \<open>
  As long as every call brings a new document id, the edges stay in step with the nodes.
\<close>

lemma add_circular_fresh:
  assumes "edges_match_nodes g" "fname \<notin> fst ` set (nodes g)" "distinct refs"
  shows "edges_match_nodes (add_circular g fname circ_no refs)"
proof -
  let ?g = "add_circular g fname circ_no refs"
  let ?n = "\<lparr>filename = fname, circular_no = Some circ_no,
              references = Some refs, reference_count = length refs\<rparr>"
  have nodes: "nodes ?g = nodes g @ [(fname, ?n)]"
    using assms(2) by (simp add: add_circular_def Let_def update_fresh)
  have count: "edge_count ?g i ref =
                 edge_count g i ref + (if i = fname then count_list refs ref else 0)" for i ref
    by (simp add: add_circular_def Let_def edge_count_def count_new_edges
        del: length_filter_map)
  have src: "\<forall>e \<in> set (edges g). source e \<in> fst ` set (nodes g)"
    using assms(1) by (simp add: edges_match_nodes_def)
  have old: "edge_count ?g i ref = (if ref \<in> set (get_references n) then 1 else 0)"
    if "(i, n) \<in> set (nodes g)" for i n ref
  proof -
    have "i \<noteq> fname" using that assms(2) by force
    then show ?thesis using assms(1) that by (auto simp: count edges_match_nodes_def)
  qed
  have new: "edge_count ?g fname ref = (if ref \<in> set (get_references ?n) then 1 else 0)"
    for ref
    by (simp add: count no_edges_from_fresh[OF src assms(2)] count_list_distinct[OF assms(3)]
        get_references_def)
  have "\<forall>e \<in> set (edges ?g). source e \<in> fst ` set (nodes ?g)"
    using src by (auto simp: add_circular_def Let_def dom_update)
  then show ?thesis
    unfolding edges_match_nodes_def nodes using old new by auto
qed

subsection \<open>The traversal\<close>

declare bfs_loop.simps [simp del]

text \<open>No iteration of the loop lasts forever: the iteration relation is well-founded.\<close>

lemma wf_bfs_iteration: "wf (bfs_iteration an max_depth)"
proof (rule wf_subset)
  show "wf (measures [bfs_measure an, \<lambda>s. length (queue s)])" by simp
  show "bfs_iteration an max_depth \<subseteq> measures [bfs_measure an, \<lambda>s. length (queue s)]"
    using bfs_body_decreases by (auto simp: bfs_iteration_def)
qed

lemma bfs_body_loaded:
  "\<exists>s'. bfs_body (load_graph g) md current_ref level s = Inr s'"
proof (cases "lookup_node_id (load_graph g) current_ref")
  case None
  then show ?thesis by (simp add: bfs_body_def)
next
  case (Some i)
  have "\<exists>n. map_of (nodes (load_graph g)) i = Some n"
  proof (cases "current_ref \<in> fst ` set (nodes (load_graph g))")
    case True
    then have "i = current_ref" using Some by (simp add: lookup_node_id_def)
    then show ?thesis using True
      by (metis map_of_eq_None_iff not_Some_eq)
  next
    case False
    then have "map_of (circular_to_node (load_graph g)) current_ref = Some i"
      using Some by (simp add: lookup_node_id_def)
    from circular_to_node_Some[OF this] show ?thesis by auto
  qed
  then show ?thesis using Some by (auto simp: bfs_body_def)
qed

text \<open>An invariant of the loop body holds of the state the loop returns.\<close>

lemma bfs_loop_invariant:
  assumes "P s"
    and "\<And>s current_ref level rest s'.
           P s \<Longrightarrow> queue s = (current_ref, level) # rest \<Longrightarrow>
           bfs_body an md current_ref level (s\<lparr>queue := rest\<rparr>) = Inr s' \<Longrightarrow> P s'"
    and "bfs_loop an md s = Inr r"
  shows "P r"
  using assms
proof (induction an md s rule: bfs_loop.induct)
  case (1 an max_depth s)
  show ?case
  proof (cases "queue s")
    case Nil
    then show ?thesis using "1.prems"(1,3) by (simp add: bfs_loop.simps[of an max_depth s])
  next
    case (Cons p rest)
    obtain current_ref level where p: "p = (current_ref, level)" by (cases p)
    from "1.prems"(3) Cons p obtain s' where
      s': "bfs_body an max_depth current_ref level (s\<lparr>queue := rest\<rparr>) = Inr s'"
      and r: "bfs_loop an max_depth s' = Inr r"
      by (auto simp: bfs_loop.simps[of an max_depth s] split: sum.splits)
    have "P s'" using "1.prems"(2)[OF "1.prems"(1) _ s'] Cons p by simp
    from "1.IH"[OF Cons p[symmetric] s' this "1.prems"(2) r] show ?thesis by simp
  qed
qed

lemma bfs_loop_returns:
  assumes "\<And>current_ref level s. \<exists>s'. bfs_body an md current_ref level s = Inr s'"
  shows "\<exists>r. bfs_loop an md s = Inr r"
  using assms
proof (induction an md s rule: bfs_loop.induct)
  case (1 an max_depth s)
  show ?case
  proof (cases "queue s")
    case Nil
    then show ?thesis by (simp add: bfs_loop.simps[of an max_depth s])
  next
    case (Cons p rest)
    obtain current_ref level where p: "p = (current_ref, level)" by (cases p)
    obtain s' where
      s': "bfs_body an max_depth current_ref level (s\<lparr>queue := rest\<rparr>) = Inr s'"
      using "1.prems" by blast
    from "1.IH"[OF Cons p[symmetric] s' "1.prems"]
    obtain r where "bfs_loop an max_depth s' = Inr r" by blast
    then show ?thesis using Cons p s' by (simp add: bfs_loop.simps[of an max_depth s])
  qed
qed

lemma find_indirect_references_loaded:
  "\<exists>r. find_indirect_references (load_graph g) direct_refs max_depth = Inr r"
proof -
  obtain s where "bfs_loop (load_graph g) max_depth (seed direct_refs) = Inr s"
    using bfs_loop_returns[of "load_graph g" max_depth "seed direct_refs"] bfs_body_loaded
    by blast
  then show ?thesis by (simp add: find_indirect_references_def)
qed

lemma level_set_upd:
  "level_set (m(l \<mapsto> S)) l' = (if l' = l then S else level_set m l')"
  by (simp add: level_set_def)

lemma add_ref_levels_inv: "levels_inv s \<Longrightarrow> levels_inv (add_ref lvl ref s)"
  unfolding levels_inv_def levels_disjoint_def add_ref_def
  by (auto simp: level_set_upd)

lemma fold_add_ref_levels_inv: "levels_inv s \<Longrightarrow> levels_inv (fold (add_ref lvl) rs s)"
  by (induction rs arbitrary: s) (auto simp: add_ref_levels_inv)

lemma add_ref_seeding_inv: "seeding_inv s \<Longrightarrow> seeding_inv (add_ref 2 ref s)"
  unfolding seeding_inv_def add_ref_def
  by (auto simp: level_set_upd)

lemma fold_add_ref_seeding_inv: "seeding_inv s \<Longrightarrow> seeding_inv (fold (add_ref 2) rs s)"
  by (induction rs arbitrary: s) (auto simp: add_ref_seeding_inv)

lemma add_ref_traversal_inv:
  "traversal_inv K s \<Longrightarrow> 3 \<le> lvl \<Longrightarrow> traversal_inv K (add_ref lvl ref s)"
  unfolding traversal_inv_def add_ref_def
  by (auto simp: level_set_upd)

lemma fold_add_ref_traversal_inv:
  "traversal_inv K s \<Longrightarrow> 3 \<le> lvl \<Longrightarrow> traversal_inv K (fold (add_ref lvl) rs s)"
  by (induction rs arbitrary: s) (auto simp: add_ref_traversal_inv)

lemma add_ref_depth_inv:
  "depth_inv md s \<Longrightarrow> 2 \<le> lvl \<Longrightarrow> lvl \<le> md \<Longrightarrow> depth_inv md (add_ref lvl ref s)"
  unfolding depth_inv_def add_ref_def by (auto simp: level_set_upd)

lemma fold_add_ref_depth_inv:
  "depth_inv md s \<Longrightarrow> 2 \<le> lvl \<Longrightarrow> lvl \<le> md \<Longrightarrow> depth_inv md (fold (add_ref lvl) rs s)"
  by (induction rs arbitrary: s) (auto simp: add_ref_depth_inv)

lemma seed_step_invs:
  assumes "levels_inv s" "seeding_inv s"
  shows "levels_inv (seed_step p s)" "seeding_inv (seed_step p s)"
    "visited s \<union> {fst p} \<subseteq> visited (seed_step p s)"
proof -
  obtain ref d where p: "p = (ref, d)" by (cases p)
  let ?s1 = "s\<lparr>visited := insert ref (visited s)\<rparr>"
  have "levels_inv ?s1" using assms(1) by (auto simp: levels_inv_def)
  moreover have "seeding_inv ?s1" using assms(2) by (auto simp: seeding_inv_def)
  ultimately show "levels_inv (seed_step p s)" "seeding_inv (seed_step p s)"
    by (auto simp: p seed_step_def Let_def fold_add_ref_levels_inv fold_add_ref_seeding_inv)
  show "visited s \<union> {fst p} \<subseteq> visited (seed_step p s)"
    by (auto simp: p seed_step_def Let_def visited_fold_add_ref)
qed

lemma fold_seed_step_invs:
  assumes "levels_inv s" "seeding_inv s"
  shows "levels_inv (fold seed_step ds s) \<and> seeding_inv (fold seed_step ds s) \<and>
         visited s \<union> fst ` set ds \<subseteq> visited (fold seed_step ds s)"
  using assms
proof (induction ds arbitrary: s)
  case Nil
  then show ?case by simp
next
  case (Cons p ds)
  from seed_step_invs[OF Cons.prems, of p] Cons.IH[of "seed_step p s"]
  show ?case by auto
qed

lemma seed_invs:
  "levels_inv (seed direct_refs)" "seeding_inv (seed direct_refs)"
  "fst ` set direct_refs \<subseteq> visited (seed direct_refs)"
proof -
  have "levels_inv initial_state" "seeding_inv initial_state"
    by (auto simp: levels_inv_def levels_disjoint_def seeding_inv_def initial_state_def
        level_set_def)
  from fold_seed_step_invs[OF this, of direct_refs]
  show "levels_inv (seed direct_refs)" "seeding_inv (seed direct_refs)"
    "fst ` set direct_refs \<subseteq> visited (seed direct_refs)"
    by (auto simp: seed_def)
qed

lemma seed_traversal_inv: "traversal_inv (fst ` set direct_refs) (seed direct_refs)"
  using seed_invs(2,3)[of direct_refs] unfolding traversal_inv_def seeding_inv_def
  by fastforce

lemma seed_depth_inv: "2 \<le> md \<Longrightarrow> depth_inv md (seed direct_refs)"
  using seed_invs(2)[of direct_refs] unfolding seeding_inv_def depth_inv_def
  by fastforce

lemma bfs_body_invs:
  assumes "levels_inv s \<and> traversal_inv K s"
    and "queue s = (current_ref, level) # rest"
    and "bfs_body an md current_ref level (s\<lparr>queue := rest\<rparr>) = Inr s'"
  shows "levels_inv s' \<and> traversal_inv K s'"
proof -
  let ?s1 = "s\<lparr>queue := rest\<rparr>"
  have lvl: "2 \<le> level" using assms(1,2) by (auto simp: traversal_inv_def)
  have s1: "levels_inv ?s1" "traversal_inv K ?s1"
    using assms(1,2) by (auto simp: levels_inv_def traversal_inv_def)
  consider (pop) "s' = ?s1"
    | (expand) n where "s' = fold (add_ref (level + 1)) (get_references n) ?s1"
    using assms(3) by (auto simp: bfs_body_def split: if_splits option.splits)
  then show ?thesis
  proof cases
    case pop
    then show ?thesis using s1 by simp
  next
    case expand
    then show ?thesis
      using s1 lvl by (simp add: fold_add_ref_levels_inv fold_add_ref_traversal_inv)
  qed
qed

lemma bfs_body_depth_inv:
  assumes "depth_inv md s" "queue s = (current_ref, level) # rest"
    and "bfs_body an md current_ref level (s\<lparr>queue := rest\<rparr>) = Inr s'"
  shows "depth_inv md s'"
proof -
  let ?s1 = "s\<lparr>queue := rest\<rparr>"
  have lvl: "2 \<le> level" and s1: "depth_inv md ?s1"
    using assms(1,2) by (auto simp: depth_inv_def)
  consider (pop) "s' = ?s1"
    | (expand) n where "level < md" "s' = fold (add_ref (level + 1)) (get_references n) ?s1"
    using assms(3) by (auto simp: bfs_body_def split: if_splits option.splits)
  then show ?thesis
  proof cases
    case pop
    then show ?thesis using s1 by simp
  next
    case expand
    then show ?thesis using s1 lvl by (simp add: fold_add_ref_depth_inv)
  qed
qed

lemma find_indirect_references_invs:
  assumes "find_indirect_references an direct_refs max_depth = Inr r"
  shows "levels_disjoint r"
    and "\<And>l x. 3 \<le> l \<Longrightarrow> x \<in> level_set r l \<Longrightarrow> x \<notin> fst ` set direct_refs"
proof -
  from assms obtain s where s: "bfs_loop an max_depth (seed direct_refs) = Inr s"
    and r: "r = indirect_by_level s"
    by (auto simp: find_indirect_references_def split: sum.splits)
  have "levels_inv s \<and> traversal_inv (fst ` set direct_refs) s"
    by (rule bfs_loop_invariant[where
          P = "\<lambda>s. levels_inv s \<and> traversal_inv (fst ` set direct_refs) s", OF _ _ s])
       (use seed_invs(1) seed_traversal_inv bfs_body_invs in blast)+
  then show "levels_disjoint r"
    and "\<And>l x. 3 \<le> l \<Longrightarrow> x \<in> level_set r l \<Longrightarrow> x \<notin> fst ` set direct_refs"
    by (auto simp: r levels_inv_def traversal_inv_def)
qed

lemma add_ref_raw_inv: "raw_inv S s \<Longrightarrow> ref \<in> S \<Longrightarrow> raw_inv S (add_ref lvl ref s)"
  unfolding raw_inv_def add_ref_def by (auto simp: level_set_upd)

lemma fold_add_ref_raw_inv:
  "raw_inv S s \<Longrightarrow> set rs \<subseteq> S \<Longrightarrow> raw_inv S (fold (add_ref lvl) rs s)"
  by (induction rs arbitrary: s) (auto simp: add_ref_raw_inv)

lemma fold_seed_step_raw_inv:
  "raw_inv S s \<Longrightarrow> cited_references ds \<subseteq> S \<Longrightarrow> raw_inv S (fold seed_step ds s)"
proof (induction ds arbitrary: s)
  case Nil
  then show ?case by simp
next
  case (Cons p ds)
  obtain ref d where p: "p = (ref, d)" by (cases p)
  have sub: "set (details_references d) \<subseteq> S" "cited_references ds \<subseteq> S"
    using Cons.prems(2) by (auto simp: p cited_references_def)
  have "raw_inv S (s\<lparr>visited := insert ref (visited s)\<rparr>)"
    using Cons.prems(1) by (simp add: raw_inv_def)
  then have "raw_inv S (seed_step p s)"
    using sub(1) by (auto simp: p seed_step_def Let_def fold_add_ref_raw_inv)
  from Cons.IH[OF this sub(2)] show ?case by simp
qed

lemma seed_raw_inv: "cited_references direct_refs \<subseteq> S \<Longrightarrow> raw_inv S (seed direct_refs)"
  unfolding seed_def
  by (rule fold_seed_step_raw_inv) (auto simp: raw_inv_def initial_state_def level_set_def)

lemma bfs_body_raw_inv:
  assumes "raw_inv S s" "stored_references an \<subseteq> S"
    and "bfs_body an md current_ref level (s\<lparr>queue := rest\<rparr>) = Inr s'"
  shows "raw_inv S s'"
proof -
  let ?s1 = "s\<lparr>queue := rest\<rparr>"
  have s1: "raw_inv S ?s1" using assms(1) by (simp add: raw_inv_def)
  consider (pop) "s' = ?s1"
    | (expand) i n where "map_of (nodes an) i = Some n"
        "s' = fold (add_ref (level + 1)) (get_references n) ?s1"
    using assms(3) by (auto simp: bfs_body_def split: if_splits option.splits)
  then show ?thesis
  proof cases
    case pop
    then show ?thesis using s1 by simp
  next
    case expand
    from get_references_subset[OF expand(1)] assms(2)
    have "set (get_references n) \<subseteq> S" by auto
    then show ?thesis using s1 expand(2) by (simp add: fold_add_ref_raw_inv)
  qed
qed

text \<open>
  What a level holds is a reference string as it stands in the direct-reference map or in
  a node of the graph.
\<close>

lemma find_indirect_references_raw:
  assumes "find_indirect_references an direct_refs max_depth = Inr r" "x \<in> level_set r l"
  shows "x \<in> cited_references direct_refs \<union> stored_references an"
proof -
  let ?S = "cited_references direct_refs \<union> stored_references an"
  from assms(1) obtain s where s: "bfs_loop an max_depth (seed direct_refs) = Inr s"
    and r: "r = indirect_by_level s"
    by (auto simp: find_indirect_references_def split: sum.splits)
  have "raw_inv ?S s"
  proof (rule bfs_loop_invariant[where P = "raw_inv ?S", OF _ _ s])
    show "raw_inv ?S (seed direct_refs)" by (rule seed_raw_inv) simp
  next
    fix s current_ref level rest s'
    assume "raw_inv ?S s"
      "bfs_body an max_depth current_ref level (s\<lparr>queue := rest\<rparr>) = Inr s'"
    then show "raw_inv ?S s'"
      using bfs_body_raw_inv[of ?S s an max_depth current_ref level rest s'] by simp
  qed
  then show ?thesis using assms(2) by (simp add: r raw_inv_def)
qed

text \<open>
  When no queued item is below \<open>max_depth\<close> the loop only empties the queue; so for
  \<open>max_depth \<le> 2\<close> the result is what the seeding loop has put into level 2.
\<close>

lemma bfs_loop_drains:
  "\<forall>(x, l) \<in> set (queue s). md \<le> l \<Longrightarrow> bfs_loop an md s = Inr (s\<lparr>queue := []\<rparr>)"
proof (induction "queue s" arbitrary: s)
  case Nil
  then show ?case by (simp add: bfs_loop.simps[of an md s])
next
  case (Cons p rest)
  obtain current_ref level where p: "p = (current_ref, level)" by (cases p)
  have q: "queue s = (current_ref, level) # rest" using Cons.hyps(2) p by simp
  have "md \<le> level" using Cons.prems q by simp
  then have body:
    "bfs_body an md current_ref level (s\<lparr>queue := rest\<rparr>) = Inr (s\<lparr>queue := rest\<rparr>)"
    by (simp add: bfs_body_def)
  have "bfs_loop an md (s\<lparr>queue := rest\<rparr>) = Inr (s\<lparr>queue := rest, queue := []\<rparr>)"
    using Cons.prems q by (intro Cons.hyps(1)) auto
  then show ?case
    by (simp add: bfs_loop.simps[of an md s] q body)
qed

lemma find_indirect_references_shallow:
  assumes "max_depth \<le> 2"
  shows "find_indirect_references an direct_refs max_depth =
           Inr (indirect_by_level (seed direct_refs))"
proof -
  have "\<forall>(x, l) \<in> set (queue (seed direct_refs)). max_depth \<le> l"
    using seed_invs(2)[of direct_refs] assms by (fastforce simp: seeding_inv_def)
  from bfs_loop_drains[OF this, of an] show ?thesis
    by (simp add: find_indirect_references_def)
qed

text \<open>
  For a depth of at least 2 the result keeps the bound of the docstring (``up to
  max\_depth levels''): every level of the result lies between 2 and \<open>max_depth\<close>.
\<close>

lemma levels_within_max_depth:
  assumes "2 \<le> max_depth" "find_indirect_references an direct_refs max_depth = Inr r"
    and "x \<in> level_set r l"
  shows "2 \<le> l \<and> l \<le> max_depth"
proof -
  from assms(2) obtain s where s: "bfs_loop an max_depth (seed direct_refs) = Inr s"
    and r: "r = indirect_by_level s"
    by (auto simp: find_indirect_references_def split: sum.splits)
  have "depth_inv max_depth s"
    by (rule bfs_loop_invariant[where P = "depth_inv max_depth", OF _ _ s])
       (use seed_depth_inv[OF assms(1)] bfs_body_depth_inv in blast)+
  then show ?thesis using assms(3) by (auto simp: r depth_inv_def)
qed

subsection \<open>The example graphs, evaluated\<close>

lemma load_cycle_graph:
  "load_graph cycle_graph =
     \<lparr>nodes = [(''x.pdf'', node_x), (''y.pdf'', node_y)],
      edges = [\<lparr>source = ''x.pdf'', source_circular_no = ''X'', target_reference = ''Y''\<rparr>,
               \<lparr>source = ''y.pdf'', source_circular_no = ''Y'', target_reference = ''X''\<rparr>],
      reference_map = [(''Y'', [''x.pdf'']), (''X'', [''y.pdf''])],
      circular_to_node = [(''X'', ''x.pdf''), (''Y'', ''y.pdf'')]\<rparr>"
  by (simp add: cycle_graph_def node_x_def node_y_def load_eval)

lemma cycle_direct:
  "find_direct_references (load_graph cycle_graph) [''Y''] =
     Inr [(''Y'', In_graph ''y.pdf'' node_y [''X''])]"
  by (simp add: load_cycle_graph find_direct_references_def resolve_reference_def
      get_references_def node_y_def)

lemma cycle_seed:
  "seed [(''Y'', In_graph ''y.pdf'' node_y [''X''])] =
     \<lparr>indirect_by_level = [2 \<mapsto> {''X''}], visited = {''X'', ''Y''}, queue = [(''X'', 2)]\<rparr>"
  by (simp add: seed_def seed_step_def add_ref_def initial_state_def level_set_def)

lemma cycle_indirect:
  "max_depth \<in> {0, 1, 5} \<Longrightarrow>
     find_indirect_references (load_graph cycle_graph)
       [(''Y'', In_graph ''y.pdf'' node_y [''X''])] max_depth = Inr [2 \<mapsto> {''X''}]"
  by (auto simp add: find_indirect_references_def cycle_seed load_cycle_graph bfs_loop.simps
      bfs_body_def lookup_node_id_def get_references_def node_x_def add_ref_def)

lemma load_sample_graph:
  "load_graph sample_graph =
     \<lparr>nodes = [(''a.pdf'', node_a), (''b.pdf'', node_b)],
      edges = [\<lparr>source = ''a.pdf'', source_circular_no = ''A/1'', target_reference = ''B/2''\<rparr>,
               \<lparr>source = ''a.pdf'', source_circular_no = ''A/1'', target_reference = ''C/3''\<rparr>,
               \<lparr>source = ''b.pdf'', source_circular_no = ''B/2'', target_reference = ''A/1''\<rparr>],
      reference_map = [(''B/2'', [''a.pdf'']), (''C/3'', [''a.pdf'']), (''A/1'', [''b.pdf''])],
      circular_to_node = [(''A/1'', ''a.pdf''), (''B/2'', ''b.pdf'')]\<rparr>"
  by (simp add: sample_graph_def node_a_def node_b_def load_eval)

lemma sample_direct:
  "find_direct_references (load_graph sample_graph) [''a.pdf'', ''B/2'', ''C/3'', ''b/'', ''Z/9''] =
     Inr [(''a.pdf'', In_graph ''a.pdf'' node_a [''B/2'', ''C/3'']),
          (''B/2'', In_graph ''b.pdf'' node_b [''A/1'']),
          (''C/3'', Referenced_external [''a.pdf'']),
          (''b/'', Fuzzy_match [''b.pdf'']),
          (''Z/9'', External)]"
  by (simp add: load_sample_graph find_direct_references_def resolve_reference_def
      fuzzy_match_reference_def get_references_def get_circular_no_def node_a_def node_b_def
      string_eval)

lemma load_spelling_graph:
  "load_graph spelling_graph =
     \<lparr>nodes = [(''a.pdf'', node_a2), (''b.pdf'', node_b2)],
      edges = [\<lparr>source = ''a.pdf'', source_circular_no = ''A/1'', target_reference = ''B/2''\<rparr>,
               \<lparr>source = ''a.pdf'', source_circular_no = ''A/1'', target_reference = ''X 1''\<rparr>,
               \<lparr>source = ''b.pdf'', source_circular_no = ''B/2'', target_reference = ''X1''\<rparr>],
      reference_map = [(''B/2'', [''a.pdf'']), (''X 1'', [''a.pdf'']), (''X1'', [''b.pdf''])],
      circular_to_node = [(''A/1'', ''a.pdf''), (''B/2'', ''b.pdf'')]\<rparr>"
  by (simp add: spelling_graph_def node_a2_def node_b2_def load_eval)

lemma spelling_direct:
  "find_direct_references (load_graph spelling_graph) [''A/1''] =
     Inr [(''A/1'', In_graph ''a.pdf'' node_a2 [''B/2'', ''X 1''])]"
  by (simp add: load_spelling_graph find_direct_references_def resolve_reference_def
      get_references_def node_a2_def)

lemma spelling_seed:
  "seed [(''A/1'', In_graph ''a.pdf'' node_a2 [''B/2'', ''X 1''])] =
     \<lparr>indirect_by_level = [2 \<mapsto> {''X 1'', ''B/2''}], visited = {''X 1'', ''B/2'', ''A/1''},
      queue = [(''B/2'', 2), (''X 1'', 2)]\<rparr>"
  by (simp add: seed_def seed_step_def add_ref_def initial_state_def level_set_def)

lemma spelling_indirect:
  "find_indirect_references (load_graph spelling_graph)
     [(''A/1'', In_graph ''a.pdf'' node_a2 [''B/2'', ''X 1''])] 5 =
     Inr [2 \<mapsto> {''X 1'', ''B/2''}, 3 \<mapsto> {''X1''}]"
  by (simp add: find_indirect_references_def spelling_seed load_spelling_graph bfs_loop.simps
      bfs_body_def lookup_node_id_def get_references_def node_b2_def add_ref_def level_set_def)

lemma load_spaced_graph:
  "load_graph spaced_graph =
     \<lparr>nodes = [(''n.pdf'', \<lparr>filename = ''n.pdf'', circular_no = Some ''SEBI HO ABC 2024 5'',
                            references = Some [], reference_count = 0\<rparr>)],
      edges = [], reference_map = [],
      circular_to_node = [(''SEBI HO ABC 2024 5'', ''n.pdf'')]\<rparr>"
  by (simp add: spaced_graph_def load_eval)

lemma spaced_direct:
  "find_direct_references (load_graph spaced_graph) [''SEBI/HO/ABC/2024/5''] =
     Inr [(''SEBI/HO/ABC/2024/5'', External)]"
  by (simp add: load_spaced_graph find_direct_references_def resolve_reference_def
      fuzzy_match_reference_def get_circular_no_def string_eval)

lemma load_hyphen_graph:
  "load_graph hyphen_graph =
     \<lparr>nodes = [(''n.pdf'', \<lparr>filename = ''n.pdf'', circular_no = Some ''SEBI-HO-1'',
                            references = Some [], reference_count = 0\<rparr>)],
      edges = [], reference_map = [],
      circular_to_node = [(''SEBI-HO-1'', ''n.pdf'')]\<rparr>"
  by (simp add: hyphen_graph_def load_eval)

lemma hyphen_fuzzy: "fuzzy_match_reference (load_graph hyphen_graph) ''SEBI/HO/1'' = []"
  by (simp add: load_hyphen_graph fuzzy_match_reference_def get_circular_no_def string_eval)

lemma hyphen_search:
  "search [\<lparr>title = ''Master circular'', entry_circular_no = ''SEBI-HO-1''\<rparr>] ''SEBI/HO/1'' = []"
  by (simp add: search_def string_eval)

lemma load_unnamed_graph:
  "load_graph unnamed_graph =
     \<lparr>nodes = [(''u.pdf'', \<lparr>filename = ''u.pdf'', circular_no = None,
                            references = Some [], reference_count = 0\<rparr>),
               (''b.pdf'', node_b)],
      edges = [], reference_map = [], circular_to_node = [(''B/2'', ''b.pdf'')]\<rparr>"
  by (simp add: unnamed_graph_def node_b_def load_eval)

lemma unnamed_fuzzy:
  "fuzzy_match_reference (load_graph unnamed_graph) ''Z/9'' = [''u.pdf'']"
  "fuzzy_match_reference (load_graph unnamed_graph) ''   '' = [''u.pdf'', ''b.pdf'']"
  by (simp_all add: load_unnamed_graph fuzzy_match_reference_def get_circular_no_def node_b_def
      string_eval)

text \<open>
  A direct reference can enter level 2: \<^verbatim>\<open>visited.add(ref)\<close> runs inside the
  seeding loop, so when A/1 is seeded its reference B/2 is not yet visited, although B/2
  is a direct reference itself.
\<close>

lemma direct_reference_enters_level_two:
  "find_direct_references (load_graph sample_graph) [''A/1'', ''B/2''] =
     Inr [(''A/1'', In_graph ''a.pdf'' node_a [''B/2'', ''C/3'']),
          (''B/2'', In_graph ''b.pdf'' node_b [''A/1''])]"
  "find_indirect_references (load_graph sample_graph)
     [(''A/1'', In_graph ''a.pdf'' node_a [''B/2'', ''C/3'']),
      (''B/2'', In_graph ''b.pdf'' node_b [''A/1''])] 5 = Inr [2 \<mapsto> {''C/3'', ''B/2''}]"
   apply (simp add: load_sample_graph find_direct_references_def resolve_reference_def
      get_references_def node_a_def node_b_def)
  apply (simp add: find_indirect_references_def load_sample_graph bfs_loop.simps
      seed_def seed_step_def initial_state_def level_set_def
      bfs_body_def lookup_node_id_def get_references_def node_a_def node_b_def add_ref_def)
  done

lemma load_empty_graph:
  "load_graph empty_graph = \<lparr>nodes = [], edges = [], reference_map = [], circular_to_node = []\<rparr>"
  by (simp add: load_eval)

lemma empty_graph_direct:
  "find_direct_references (load_graph empty_graph) [''sebi/ho/mirsd/cir/2024/1''] =
     Inr [(''sebi/ho/mirsd/cir/2024/1'', External)]"
  by (simp add: load_empty_graph find_direct_references_def resolve_reference_def
      fuzzy_match_reference_def)

section \<open>The properties\<close>

text \<open>
  C1. The specification asks that the traversal called with \<open>max_depth = 1\<close> returns an
  empty result (no level key) without error. The code raises no error, but its first loop
  puts the references of the direct references into level 2 before \<open>max_depth\<close> is looked
  at, and with \<open>max_depth = 1\<close> exactly that is returned: on the two documents that cite
  each other, resolving the reference Y of X and expanding with \<open>max_depth = 1\<close> returns
  a result with the key 2.
\<close>

theorem C1_max_depth_one_returns_level_two:
  "find_indirect_references an direct_refs 1 = Inr (indirect_by_level (seed direct_refs)) \<and>
   find_direct_references (load_graph cycle_graph) [''Y''] =
     Inr [(''Y'', In_graph ''y.pdf'' node_y [''X''])] \<and>
   find_indirect_references (load_graph cycle_graph)
     [(''Y'', In_graph ''y.pdf'' node_y [''X''])] 1 = Inr [2 \<mapsto> {''X''}]"
proof -
  have "find_indirect_references an direct_refs 1 = Inr (indirect_by_level (seed direct_refs))"
    by (rule find_indirect_references_shallow) simp
  moreover have "find_indirect_references (load_graph cycle_graph)
      [(''Y'', In_graph ''y.pdf'' node_y [''X''])] 1 = Inr [2 \<mapsto> {''X''}]"
    by (rule cycle_indirect) simp
  ultimately show ?thesis by (simp add: cycle_direct)
qed

text \<open>
  C2. The specification asks that a candidate is dropped exactly when its normalized form
  equals the normalized own identifier, and not on mere containment. The filter of
  \<^verbatim>\<open>extract_circular_references\<close> (and of \<^verbatim>\<open>main\<close> in
  \<^verbatim>\<open>circular_reference_extractor.py\<close>) compares the raw strings by containment:
  for the document 2024/1 it drops the reference to the other circular 2024/12, whose
  normalized form is different, and keeps the lower-case spelling of its own number, whose
  normalized form is equal, so the resolver's output has an entry for the second and none
  for the first. The filter of the files under \<^verbatim>\<open>scripts/\<close> keeps the first
  and drops the second.
\<close>

theorem C2_containment_filter_drops_other_circular:
  "filter_self_references ''SEBI/HO/MIRSD/CIR/2024/1''
     [''SEBI/HO/MIRSD/CIR/2024/12'', ''sebi/ho/mirsd/cir/2024/1''] =
     [''sebi/ho/mirsd/cir/2024/1''] \<and>
   main_filter_self_references ''SEBI/HO/MIRSD/CIR/2024/1''
     [''SEBI/HO/MIRSD/CIR/2024/12'', ''sebi/ho/mirsd/cir/2024/1''] =
     [''sebi/ho/mirsd/cir/2024/1''] \<and>
   normalize_spec ''SEBI/HO/MIRSD/CIR/2024/12'' \<noteq> normalize_spec ''SEBI/HO/MIRSD/CIR/2024/1'' \<and>
   normalize_spec ''sebi/ho/mirsd/cir/2024/1'' = normalize_spec ''SEBI/HO/MIRSD/CIR/2024/1'' \<and>
   find_direct_references (load_graph empty_graph)
     (filter_self_references ''SEBI/HO/MIRSD/CIR/2024/1''
        [''SEBI/HO/MIRSD/CIR/2024/12'', ''sebi/ho/mirsd/cir/2024/1'']) =
     Inr [(''sebi/ho/mirsd/cir/2024/1'', External)] \<and>
   filter_self_references_exact ''SEBI/HO/MIRSD/CIR/2024/1''
     [''SEBI/HO/MIRSD/CIR/2024/12'', ''sebi/ho/mirsd/cir/2024/1''] =
     [''SEBI/HO/MIRSD/CIR/2024/12'']"
  using empty_graph_direct
  by (simp add: filter_self_references_def main_filter_self_references_def
      filter_self_references_exact_def normalize_circular_no_def normalize_spec_def string_eval)

text \<open>
  Scenario B of the specification, on the code: the candidate written with slashes and the
  stored circular number written with spaces have the same normalized form, the candidate
  is no node id, and the resolver classifies it as \<^verbatim>\<open>external\<close> (unresolved).
\<close>

theorem C3_spacing_variant_is_unresolved:
  "normalize_spec ''SEBI/HO/ABC/2024/5'' = normalize_spec ''SEBI HO ABC 2024 5'' \<and>
   map (\<lambda>(i, n). circular_no n) (nodes (load_graph spaced_graph)) =
     [Some ''SEBI HO ABC 2024 5''] \<and>
   map_of (nodes (load_graph spaced_graph)) ''SEBI/HO/ABC/2024/5'' = None \<and>
   find_direct_references (load_graph spaced_graph) [''SEBI/HO/ABC/2024/5''] =
     Inr [(''SEBI/HO/ABC/2024/5'', External)]"
  using spaced_direct by (simp add: load_spaced_graph normalize_spec_def string_eval)

text \<open>
  C3, as the code has it. For every graph and every candidate that is not a node id, the
  resolver classifies the candidate as \<^verbatim>\<open>in_graph\<close> through the alias index exactly
  when the candidate is non-empty and is, character for character, the stored
  \<^verbatim>\<open>circular_no\<close> of some node; the entry then names a node whose stored
  \<^verbatim>\<open>circular_no\<close> is the candidate, with that node's references. No normalization
  takes part in the alias lookup.
\<close>

theorem C3_alias_lookup_is_verbatim:
  assumes "find_direct_references (load_graph g) cs = Inr d"
    and "ref \<in> set cs"
    and "map_of (nodes (load_graph g)) ref = None"
  shows "((\<exists>i n rs. map_of d ref = Some (In_graph i n rs)) \<longleftrightarrow>
            (ref \<noteq> [] \<and>
             (\<exists>i n. map_of (nodes (load_graph g)) i = Some n \<and> circular_no n = Some ref))) \<and>
         (\<forall>i n rs. map_of d ref = Some (In_graph i n rs) \<longrightarrow>
            map_of (nodes (load_graph g)) i = Some n \<and> circular_no n = Some ref \<and>
            rs = get_references n)"
proof -
  let ?an = "load_graph g"
  from find_direct_references_loaded[of g cs] assms(1,2)
  obtain e where e: "map_of d ref = Some e" "resolve_reference ?an ref = Inr e"
    by auto
  have via_index: "map_of (nodes ?an) i = Some n \<and> circular_no n = Some ref \<and>
               rs = get_references n \<and> ref \<noteq> []"
    if "e = In_graph i n rs" for i n rs
  proof -
    from resolve_reference_cases[OF e(2)] that assms(3)
    have c: "map_of (circular_to_node ?an) ref = Some i" "map_of (nodes ?an) i = Some n"
      "rs = get_references n"
      by auto
    from circular_to_node_Some[OF c(1)] c(2)
    have "ref \<noteq> []" "get_circular_no n = ref" by auto
    then show ?thesis using c(2,3) by (auto simp: get_circular_no_def split: option.splits)
  qed
  have found: "\<exists>i n rs. e = In_graph i n rs"
    if "ref \<noteq> []" "map_of (nodes ?an) i = Some n" "circular_no n = Some ref" for i n
  proof -
    have "get_circular_no n = ref" using that(3) by (simp add: get_circular_no_def)
    with circular_to_node_defined[OF that(2)] that(1)
    obtain j where j: "map_of (circular_to_node ?an) ref = Some j" by auto
    from circular_to_node_Some[OF j] obtain n' where "map_of (nodes ?an) j = Some n'"
      by auto
    then show ?thesis
      using e(2) j assms(3) by (auto simp: resolve_reference_def)
  qed
  show ?thesis
  proof (rule conjI)
    show "(\<exists>i n rs. map_of d ref = Some (In_graph i n rs)) \<longleftrightarrow>
            (ref \<noteq> [] \<and>
             (\<exists>i n. map_of (nodes (load_graph g)) i = Some n \<and> circular_no n = Some ref))"
    proof
      assume "\<exists>i n rs. map_of d ref = Some (In_graph i n rs)"
      then obtain i n rs where "e = In_graph i n rs" using e(1) by auto
      from via_index[OF this]
      show "ref \<noteq> [] \<and>
            (\<exists>i n. map_of (nodes (load_graph g)) i = Some n \<and> circular_no n = Some ref)"
        by blast
    next
      assume "ref \<noteq> [] \<and>
              (\<exists>i n. map_of (nodes (load_graph g)) i = Some n \<and> circular_no n = Some ref)"
      then obtain i n where "ref \<noteq> []" "map_of (nodes (load_graph g)) i = Some n"
        "circular_no n = Some ref" by blast
      from found[OF this] show "\<exists>i n rs. map_of d ref = Some (In_graph i n rs)"
        using e(1) by auto
    qed
  next
    show "\<forall>i n rs. map_of d ref = Some (In_graph i n rs) \<longrightarrow>
            map_of (nodes (load_graph g)) i = Some n \<and> circular_no n = Some ref \<and>
            rs = get_references n"
    proof (intro allI impI)
      fix i n rs
      assume "map_of d ref = Some (In_graph i n rs)"
      then have "e = In_graph i n rs" using e(1) by simp
      from via_index[OF this]
      show "map_of (nodes (load_graph g)) i = Some n \<and> circular_no n = Some ref \<and>
            rs = get_references n"
        by simp
    qed
  qed
qed

theorem C3_witness:
  "find_direct_references (load_graph sample_graph)
     [''a.pdf'', ''B/2'', ''C/3'', ''b/'', ''Z/9''] =
     Inr [(''a.pdf'', In_graph ''a.pdf'' node_a [''B/2'', ''C/3'']),
          (''B/2'', In_graph ''b.pdf'' node_b [''A/1'']),
          (''C/3'', Referenced_external [''a.pdf'']),
          (''b/'', Fuzzy_match [''b.pdf'']),
          (''Z/9'', External)] \<and>
   ''B/2'' \<in> set [''a.pdf'', ''B/2'', ''C/3'', ''b/'', ''Z/9''] \<and>
   map_of (nodes (load_graph sample_graph)) ''B/2'' = None \<and>
   map_of (nodes (load_graph sample_graph)) ''b.pdf'' = Some node_b \<and>
   circular_no node_b = Some ''B/2'' \<and> get_references node_b = [''A/1'']"
proof -
  have h2: "''B/2'' \<in> set [''a.pdf'', ''B/2'', ''C/3'', ''b/'', ''Z/9'']" by simp
  have h3: "map_of (nodes (load_graph sample_graph)) ''B/2'' = None"
    by (simp add: load_sample_graph)
  from C3_alias_lookup_is_verbatim[OF sample_direct h2 h3] h2 h3 sample_direct
  show ?thesis by (simp add: load_sample_graph)
qed

text \<open>
  C4. The specification's normalization drops every character that is not an ASCII letter
  or digit before upper-casing, so that identifiers differing only in punctuation are the
  same document. The normalization written in \<^verbatim>\<open>_fuzzy_match_reference\<close> and in
  \<^verbatim>\<open>CircularDatabase.search\<close> removes spaces only: it keeps the slashes of
  \<^verbatim>\<open>SEBI/HO/1\<close>, and neither function matches that reference with the circular
  stored as \<^verbatim>\<open>SEBI-HO-1\<close>, although both have one normalized form. The
  \<^verbatim>\<open>normalize\<close> of the files under \<^verbatim>\<open>scripts/\<close> gives the specification's
  value.
\<close>

theorem C4_normalization_keeps_punctuation:
  "upper (replace_spaces ''SEBI/HO/1'') = ''SEBI/HO/1'' \<and>
   normalize_spec ''SEBI/HO/1'' = ''SEBIHO1'' \<and>
   normalize_spec ''SEBI-HO-1'' = normalize_spec ''SEBI/HO/1'' \<and>
   fuzzy_match_reference (load_graph hyphen_graph) ''SEBI/HO/1'' = [] \<and>
   search [\<lparr>title = ''Master circular'', entry_circular_no = ''SEBI-HO-1''\<rparr>] ''SEBI/HO/1'' = [] \<and>
   normalize_circular_no ''SEBI/HO/1'' = ''SEBIHO1''"
  by (simp add: hyphen_fuzzy hyphen_search normalize_spec_def normalize_circular_no_def
      string_eval)

text \<open>
  The visited check compares raw strings: \<^verbatim>\<open>X 1\<close> at level 2 and \<^verbatim>\<open>X1\<close>
  at level 3 have one normalized form (under the specification's normalization and under
  the code's own) and both are in the result.
\<close>

theorem C5_two_spellings_at_two_levels:
  "find_direct_references (load_graph spelling_graph) [''A/1''] =
     Inr [(''A/1'', In_graph ''a.pdf'' node_a2 [''B/2'', ''X 1''])] \<and>
   find_indirect_references (load_graph spelling_graph)
     [(''A/1'', In_graph ''a.pdf'' node_a2 [''B/2'', ''X 1''])] 5 =
     Inr [2 \<mapsto> {''X 1'', ''B/2''}, 3 \<mapsto> {''X1''}] \<and>
   normalize_spec ''X 1'' = normalize_spec ''X1'' \<and>
   upper (replace_spaces ''X 1'') = upper (replace_spaces ''X1'')"
  by (simp add: spelling_direct spelling_indirect normalize_spec_def string_eval)

text \<open>
  C5, as the code has it. For every graph, every direct-reference map and every
  \<open>max_depth\<close>, the traversal returns a result in which no string appears at two
  different levels, and in which no string at a level above 2 is a key of the
  direct-reference map. The visited check is made on the raw strings, which are also what
  is stored: every string of a level is a reference string of the direct-reference map or
  of a node of the graph, as it stands there.
\<close>

theorem C5_levels_disjoint_on_raw_strings:
  "\<exists>r. find_indirect_references (load_graph g) direct_refs max_depth = Inr r \<and>
       levels_disjoint r \<and>
       (\<forall>l x. 3 \<le> l \<and> x \<in> level_set r l \<longrightarrow> x \<notin> fst ` set direct_refs) \<and>
       (\<forall>l x. x \<in> level_set r l \<longrightarrow>
          x \<in> cited_references direct_refs \<union> stored_references (load_graph g))"
proof -
  obtain r where r: "find_indirect_references (load_graph g) direct_refs max_depth = Inr r"
    using find_indirect_references_loaded by blast
  from find_indirect_references_invs[OF r] find_indirect_references_raw[OF r] r
  show ?thesis by blast
qed

theorem C5_witness:
  "find_indirect_references (load_graph spelling_graph)
     [(''A/1'', In_graph ''a.pdf'' node_a2 [''B/2'', ''X 1''])] 5 =
     Inr [2 \<mapsto> {''X 1'', ''B/2''}, 3 \<mapsto> {''X1''}] \<and>
   levels_disjoint [2 \<mapsto> {''X 1'', ''B/2''}, 3 \<mapsto> {''X1''}] \<and>
   ''X1'' \<in> level_set [2 \<mapsto> {''X 1'', ''B/2''}, 3 \<mapsto> {''X1''}] 3 \<and>
   ''X1'' \<notin> fst ` set [(''A/1'', In_graph ''a.pdf'' node_a2 [''B/2'', ''X 1''])] \<and>
   ''X1'' \<in> stored_references (load_graph spelling_graph)"
proof -
  have stored: "''X1'' \<in> stored_references (load_graph spelling_graph)"
    by (simp add: stored_references_def load_spelling_graph get_references_def
        node_a2_def node_b2_def)
  from C5_levels_disjoint_on_raw_strings[of spelling_graph
      "[(''A/1'', In_graph ''a.pdf'' node_a2 [''B/2'', ''X 1''])]" 5] stored
  show ?thesis
    by (simp add: spelling_indirect level_set_def cited_references_def)
qed

text \<open>
  C6. The specification asks that after any sequence of \<^verbatim>\<open>add_circular\<close> calls
  every node has exactly one edge per entry of its references, also when a document id is
  added again. \<^verbatim>\<open>add_circular\<close> replaces the node but only appends to the edge
  list: after adding \<^verbatim>\<open>a.pdf\<close> with the reference B/2 and again with the reference
  C/3, the node has the single reference C/3 and the edge to B/2 is still there; after
  adding it twice with B/2 there are two edges to B/2.
\<close>

theorem C6_readding_keeps_old_edges:
  "nodes (add_circular (add_circular empty_graph ''a.pdf'' ''A/1'' [''B/2''])
            ''a.pdf'' ''A/1'' [''C/3'']) =
     [(''a.pdf'', \<lparr>filename = ''a.pdf'', circular_no = Some ''A/1'',
                   references = Some [''C/3''], reference_count = 1\<rparr>)] \<and>
   edge_count (add_circular (add_circular empty_graph ''a.pdf'' ''A/1'' [''B/2''])
                 ''a.pdf'' ''A/1'' [''C/3'']) ''a.pdf'' ''B/2'' = 1 \<and>
   edge_count (add_circular (add_circular empty_graph ''a.pdf'' ''A/1'' [''B/2''])
                 ''a.pdf'' ''A/1'' [''B/2'']) ''a.pdf'' ''B/2'' = 2"
  by (simp add: add_circular_def empty_graph_def Let_def edge_count_def)

text \<open>
  C7. For every graph and every \<open>max_depth\<close> the traversal terminates: the relation
  ``one iteration of the while loop takes state \<open>s\<close> to state \<open>s'\<close>'' is well-founded,
  so no run of the loop is infinite, and on every loaded graph the function returns a
  result. On the two documents X and Y that cite each other, resolving the direct
  reference Y of X and expanding with \<open>max_depth = 5\<close> returns the single level
  \<open>2 \<mapsto> {X}\<close>: Y, the seed of the visited set, is at no level, and X occurs once, at
  level 2, where the seeding loop enqueued it, and at no level after that.
\<close>

theorem C7_traversal_terminates_on_cycles:
  "wf (bfs_iteration an max_depth) \<and>
   (\<exists>r. find_indirect_references (load_graph g) direct_refs max_depth = Inr r) \<and>
   find_direct_references (load_graph cycle_graph) [''Y''] =
     Inr [(''Y'', In_graph ''y.pdf'' node_y [''X''])] \<and>
   find_indirect_references (load_graph cycle_graph)
     [(''Y'', In_graph ''y.pdf'' node_y [''X''])] 5 = Inr [2 \<mapsto> {''X''}]"
proof (intro conjI)
  show "wf (bfs_iteration an max_depth)"
  proof (rule wf_subset)
    show "wf (measures [bfs_measure an, \<lambda>s. length (queue s)])" by simp
    show "bfs_iteration an max_depth \<subseteq> measures [bfs_measure an, \<lambda>s. length (queue s)]"
      using bfs_body_decreases by (auto simp: bfs_iteration_def)
  qed
  show "\<exists>r. find_indirect_references (load_graph g) direct_refs max_depth = Inr r"
    by (rule find_indirect_references_loaded)
  show "find_direct_references (load_graph cycle_graph) [''Y''] =
          Inr [(''Y'', In_graph ''y.pdf'' node_y [''X''])]"
    by (rule cycle_direct)
  show "find_indirect_references (load_graph cycle_graph)
          [(''Y'', In_graph ''y.pdf'' node_y [''X''])] 5 = Inr [2 \<mapsto> {''X''}]"
    by (rule cycle_indirect) simp
qed

text \<open>
  C8. For every graph and every candidate list, the resolver returns a dictionary whose
  keys are exactly the candidates, each once, and the entry of each candidate is of one
  of the five kinds: the node with that id, the node found through the alias index, an
  externally referenced identifier with its citing nodes, a non-empty fuzzy match, or
  unresolved.
\<close>

theorem C8_each_candidate_resolved_once:
  "\<exists>d. find_direct_references (load_graph g) cs = Inr d \<and>
       distinct (map fst d) \<and> set (map fst d) = set cs \<and>
       (\<forall>c \<in> set cs. \<exists>e. map_of d c = Some e \<and>
          ((\<exists>n. e = In_graph c n (get_references n) \<and>
                 map_of (nodes (load_graph g)) c = Some n) \<or>
           (\<exists>i n. e = In_graph i n (get_references n) \<and>
                 map_of (nodes (load_graph g)) c = None \<and>
                 map_of (circular_to_node (load_graph g)) c = Some i \<and>
                 map_of (nodes (load_graph g)) i = Some n) \<or>
           (\<exists>srcs. e = Referenced_external srcs \<and>
                 map_of (reference_map (load_graph g)) c = Some srcs) \<or>
           (\<exists>ms. e = Fuzzy_match ms \<and> ms \<noteq> [] \<and>
                 ms = fuzzy_match_reference (load_graph g) c) \<or>
           (e = External \<and> fuzzy_match_reference (load_graph g) c = [])))"
proof -
  from find_direct_references_loaded[of g cs]
  obtain d where d: "find_direct_references (load_graph g) cs = Inr d"
    "distinct (map fst d)" "set (map fst d) = set cs"
    "\<forall>c \<in> set cs. \<exists>e. map_of d c = Some e \<and> resolve_reference (load_graph g) c = Inr e"
    by blast
  show ?thesis
  proof (intro exI[of _ d] conjI ballI)
    fix c assume "c \<in> set cs"
    with d(4) obtain e where e: "map_of d c = Some e"
      "resolve_reference (load_graph g) c = Inr e" by blast
    from resolve_reference_cases[OF e(2)] e(1)
    show "\<exists>e. map_of d c = Some e \<and>
          ((\<exists>n. e = In_graph c n (get_references n) \<and>
                 map_of (nodes (load_graph g)) c = Some n) \<or>
           (\<exists>i n. e = In_graph i n (get_references n) \<and>
                 map_of (nodes (load_graph g)) c = None \<and>
                 map_of (circular_to_node (load_graph g)) c = Some i \<and>
                 map_of (nodes (load_graph g)) i = Some n) \<or>
           (\<exists>srcs. e = Referenced_external srcs \<and>
                 map_of (reference_map (load_graph g)) c = Some srcs) \<or>
           (\<exists>ms. e = Fuzzy_match ms \<and> ms \<noteq> [] \<and>
                 ms = fuzzy_match_reference (load_graph g) c) \<or>
           (e = External \<and> fuzzy_match_reference (load_graph g) c = []))"
      by blast
  qed (use d in auto)
qed

theorem C8_witness:
  "find_direct_references (load_graph sample_graph)
     [''a.pdf'', ''B/2'', ''C/3'', ''b/'', ''Z/9''] =
     Inr [(''a.pdf'', In_graph ''a.pdf'' node_a [''B/2'', ''C/3'']),
          (''B/2'', In_graph ''b.pdf'' node_b [''A/1'']),
          (''C/3'', Referenced_external [''a.pdf'']),
          (''b/'', Fuzzy_match [''b.pdf'']),
          (''Z/9'', External)] \<and>
   map fst [(''a.pdf'', In_graph ''a.pdf'' node_a [''B/2'', ''C/3'']),
            (''B/2'', In_graph ''b.pdf'' node_b [''A/1'']),
            (''C/3'', Referenced_external [''a.pdf'']),
            (''b/'', Fuzzy_match [''b.pdf'']),
            (''Z/9'', External)] = [''a.pdf'', ''B/2'', ''C/3'', ''b/'', ''Z/9'']"
  using C8_each_candidate_resolved_once[of sample_graph
      "[''a.pdf'', ''B/2'', ''C/3'', ''b/'', ''Z/9'']"]
  by (simp add: sample_direct)

text \<open>
  The specification asks that \<open>max_depth < 1\<close> is rejected with an error. On the two
  documents that cite each other the call with \<open>max_depth = 0\<close> returns a result.
\<close>

theorem C9_depth_zero_is_not_rejected:
  "find_indirect_references (load_graph cycle_graph)
     [(''Y'', In_graph ''y.pdf'' node_y [''X''])] 0 = Inr [2 \<mapsto> {''X''}]"
  using cycle_indirect[of 0] by simp

text \<open>
  C9, as the code has it. The traversal validates no argument: for every graph, every
  direct-reference map and every \<open>max_depth\<close>, in particular every \<open>max_depth < 1\<close>, it
  raises no error and returns a leveled reference set.
\<close>

theorem C9_no_depth_is_rejected:
  "\<exists>r. find_indirect_references (load_graph g) direct_refs max_depth = Inr r"
proof -
  have "\<exists>s'. bfs_body (load_graph g) max_depth current_ref level s = Inr s'"
    for current_ref level s
    by (rule bfs_body_loaded)
  then obtain s where "bfs_loop (load_graph g) max_depth (seed direct_refs) = Inr s"
    using bfs_loop_returns[of "load_graph g" max_depth "seed direct_refs"] by blast
  then show ?thesis by (simp add: find_indirect_references_def)
qed

text \<open>
  C10. A node whose stored circular number is absent or the empty string is in the fuzzy
  matches of every candidate, and a candidate whose normalized form (spaces removed,
  upper-cased) is empty fuzzy-matches every node of the graph; the same holds of the
  entries and references of \<^verbatim>\<open>CircularDatabase.search\<close>.
\<close>

theorem C10_empty_identifier_matches_everything:
  "((node_id, n) \<in> set (nodes an) \<and> (circular_no n = None \<or> circular_no n = Some []) \<longrightarrow>
      node_id \<in> set (fuzzy_match_reference an ref)) \<and>
   (upper (replace_spaces ref) = [] \<longrightarrow> fuzzy_match_reference an ref = map fst (nodes an)) \<and>
   (c \<in> set circulars \<and> entry_circular_no c = [] \<longrightarrow> c \<in> set (search circulars reference)) \<and>
   (upper (replace_spaces (strip reference)) = [] \<longrightarrow> search circulars reference = circulars)"
  by (auto simp: fuzzy_match_reference_def search_def Let_def get_circular_no_def upper_def
      replace_spaces_def intro!: image_eqI[where x = "(node_id, n)"])

theorem C10_witness:
  "(''u.pdf'', \<lparr>filename = ''u.pdf'', circular_no = None, references = Some [],
               reference_count = 0\<rparr>) \<in> set (nodes (load_graph unnamed_graph)) \<and>
   ''u.pdf'' \<in> set (fuzzy_match_reference (load_graph unnamed_graph) ''Z/9'') \<and>
   upper (replace_spaces ''   '') = [] \<and>
   fuzzy_match_reference (load_graph unnamed_graph) ''   '' =
     map fst (nodes (load_graph unnamed_graph)) \<and>
   \<lparr>title = ''Untitled'', entry_circular_no = []\<rparr> \<in>
     set (search [\<lparr>title = ''Untitled'', entry_circular_no = []\<rparr>] ''Z/9'') \<and>
   search [\<lparr>title = ''Master circular'', entry_circular_no = ''SEBI-HO-1''\<rparr>] ''  '' =
     [\<lparr>title = ''Master circular'', entry_circular_no = ''SEBI-HO-1''\<rparr>]"
  using C10_empty_identifier_matches_everything[of "''u.pdf''"
      "\<lparr>filename = ''u.pdf'', circular_no = None, references = Some [], reference_count = 0\<rparr>"
      "load_graph unnamed_graph" "''Z/9''"
      "\<lparr>title = ''Untitled'', entry_circular_no = []\<rparr>"
      "[\<lparr>title = ''Untitled'', entry_circular_no = []\<rparr>]" "''Z/9''"]
    C10_empty_identifier_matches_everything[of "''u.pdf''"
      "\<lparr>filename = ''u.pdf'', circular_no = None, references = Some [], reference_count = 0\<rparr>"
      "load_graph unnamed_graph" "''   ''"
      "\<lparr>title = ''Master circular'', entry_circular_no = ''SEBI-HO-1''\<rparr>"
      "[\<lparr>title = ''Master circular'', entry_circular_no = ''SEBI-HO-1''\<rparr>]" "''  ''"]
  by (simp add: load_unnamed_graph unnamed_fuzzy string_eval)

end
